theory Spec2Isabelle
  imports Complex_Main "HOL-Library.Char_ord" "HOL-Library.List_Lexorder"
begin

section \<open>airfoildb: exceptions, files and the batch drivers\<close>

text \<open>
  The Python exceptions that the modelled code raises or lets through.
  \<open>ValueError\<close> is what \<open>scipy.interpolate.splprep\<close> raises on a curve it cannot
  fit, and the only exception the batch loops catch.
\<close>

datatype error = ValueError | TypeError | HTTPError | OSError











subsection \<open>airfoildb/io.py\<close>





subsection \<open>airfoildb/webscrap.py\<close>













subsection \<open>airfoildb/io.py: export_airfoil_data\<close>



subsection \<open>Keyword arguments and their defaults\<close>

text \<open>
  The keyword parameters of \<open>curvature_based_bspline\<close> that its callers may leave
  out, and the values its signature gives them.
\<close>

record config =
  cfg_npoints :: int
  cfg_k :: int
  cfg_s :: real
  cfg_smoother :: real

definition curvature_based_bspline_defaults :: config where
  "curvature_based_bspline_defaults =
     \<lparr>cfg_npoints = 200, cfg_k = 3, cfg_s = 1 / 10 ^ 6, cfg_smoother = 10\<rparr>"

text \<open>The size of the fine discrete space, a literal in the function body.\<close>

definition grid_size :: int where
  "grid_size = 1000"

text \<open>The options of the \<open>uniformize\<close> command (typer) with their defaults.\<close>

record cli_options =
  opt_num_points :: int
  opt_degree :: int
  opt_unsmoother :: real
  opt_force :: bool

definition uniformize_defaults :: cli_options where
  "uniformize_defaults =
     \<lparr>opt_num_points = 192, opt_degree = 3, opt_unsmoother = 50, opt_force = False\<rparr>"

text \<open>
  \<open>functools.partial(curvature_based_bspline, npoints=num_points, k=degree,
  smoother=unsmoother)\<close>: the keywords given replace the defaults, \<open>s\<close> keeps its own.
\<close>

definition uniformize_partial :: "int \<Rightarrow> int \<Rightarrow> real \<Rightarrow> config" where
  "uniformize_partial num_points degree unsmoother =
     curvature_based_bspline_defaults
       \<lparr>cfg_npoints := num_points, cfg_k := degree, cfg_smoother := unsmoother\<rparr>"

text \<open>The arguments of the script \<open>bin/bspline.py\<close> (argparse) with their defaults.\<close>

record script_args =
  arg_n :: int
  arg_k :: int
  arg_s :: int
  arg_database :: string
  arg_output :: string
  arg_force :: bool

definition script_defaults :: script_args where
  "script_defaults =
     \<lparr>arg_n = 200, arg_k = 3, arg_s = 30, arg_database = ''./data/database'',
      arg_output = ''./data/uniform'', arg_force = False\<rparr>"

text \<open>\<open>partial(curvature_based_bspline, npoints=args.n, k=args.k, smoother=args.s)\<close>.\<close>

definition script_partial :: "script_args \<Rightarrow> config" where
  "script_partial args =
     curvature_based_bspline_defaults
       \<lparr>cfg_npoints := arg_n args, cfg_k := arg_k args, cfg_smoother := real_of_int (arg_s args)\<rparr>"

subsection \<open>airfoildb/cli.py: uniformize\<close>




subsection \<open>bin/bspline.py\<close>







section \<open>airfoildb/bspline.py: the curvature-based resampling\<close>

subsection \<open>The numpy and scipy routines the function calls\<close>

text \<open>
  \<open>np.linspace(start, stop, num)\<close>: a negative \<open>num\<close> raises \<open>ValueError\<close>; otherwise
  \<open>num\<close> values \<open>start + i * step\<close> with \<open>step = (stop - start) / (num - 1)\<close>, the last
  one set to \<open>stop\<close> when \<open>num > 1\<close>.
\<close>

definition linspace :: "real \<Rightarrow> real \<Rightarrow> int \<Rightarrow> error + real list" where
  "linspace start stop num =
     (if num < 0 then Inl ValueError
      else let n = nat num in
        Inr (if n \<le> 1 then replicate n start
             else map (\<lambda>i. start + real i * ((stop - start) / real (n - 1))) [0..<n - 1]
                  @ [stop]))"


definition amax :: "real list \<Rightarrow> error + real" where
  "amax a = (if a = [] then Inl ValueError else Inr (Max (set a)))"

text \<open>\<open>np.diff\<close> and \<open>np.cumsum\<close>.\<close>

definition diff :: "real list \<Rightarrow> real list" where
  "diff x = map (\<lambda>(a, b). b - a) (zip x (tl x))"

fun cumsum_from :: "real \<Rightarrow> real list \<Rightarrow> real list" where
  "cumsum_from acc [] = []"
| "cumsum_from acc (v # vs) = (acc + v) # cumsum_from (acc + v) vs"

definition cumsum :: "real list \<Rightarrow> real list" where
  "cumsum vs = cumsum_from 0 vs"

text \<open>
  \<open>scipy.integrate.cumtrapz(y, x, initial=0.0)\<close>:
  \<open>cumsum(diff(x) * (y[1:] + y[:-1]) / 2.0)\<close> with the initial value put in front;
  arrays of different lengths do not broadcast and raise \<open>ValueError\<close>.
\<close>

definition cumtrapz :: "real list \<Rightarrow> real list \<Rightarrow> error + real list" where
  "cumtrapz y x =
     (if length x \<noteq> length y then Inl ValueError
      else Inr (0 # cumsum (map (\<lambda>(d, y0, y1). d * (y1 + y0) / 2)
                              (zip (diff x) (zip y (tl y))))))"

text \<open>
  \<open>np.interp\<close> on the points \<open>(x, y)\<close> sorted by \<open>x\<close>, at a value inside the range of
  \<open>x\<close>: with \<open>j\<close> the last index whose \<open>x\<close> is not above the value, the result is
  \<open>y[j]\<close> at the last point or where \<open>x[j]\<close> is the value, and the chord through the
  points \<open>j\<close> and \<open>j + 1\<close> otherwise. The scan from the left finds the same \<open>j\<close> as the
  library's bisection.
\<close>

fun interp :: "(real \<times> real) list \<Rightarrow> real \<Rightarrow> real" where
  "interp [] v = 0"
| "interp [(x0, y0)] v = y0"
| "interp ((x0, y0) # (x1, y1) # rest) v =
     (if v < x1 then
        (if v = x0 then y0 else (y1 - y0) / (x1 - x0) * (v - x0) + y0)
      else interp ((x1, y1) # rest) v)"

text \<open>
  \<open>scipy.interpolate.interp1d(x, y)(x_new)\<close> with the defaults: linear, \<open>x\<close> sorted
  first (a stable sort, \<open>y\<close> reordered with it), and \<open>ValueError\<close> for a value of
  \<open>x_new\<close> below or above the range of \<open>x\<close>. For one-dimensional float arrays the linear
  kind hands the evaluation to \<open>np.interp\<close>. Arrays of different lengths or without
  entries are refused with \<open>ValueError\<close>.
\<close>

definition interp1d :: "real list \<Rightarrow> real list \<Rightarrow> real list \<Rightarrow> error + real list" where
  "interp1d x y x_new =
     (if length x \<noteq> length y \<or> x = [] then Inl ValueError
      else let pts = sort_key fst (zip x y) in
        if \<exists>v \<in> set x_new. v < fst (hd pts) \<or> fst (last pts) < v then Inl ValueError
        else Inr (map (interp pts) x_new))"

text \<open>
  The FITPACK routines are taken as given. \<open>splprep\<close> fits a curve to the samples or
  raises; it returns the spline and the parameter values of the samples. \<open>splev\<close>
  evaluates a derivative of the fitted plane curve at each entry of an array, so the
  two arrays it returns have the shape of its argument; \<open>splev_raises\<close> tells when it
  raises instead.
\<close>

record ('orig, 'tck) fitpack =
  splprep :: "'orig \<Rightarrow> int \<Rightarrow> real \<Rightarrow> error + ('tck \<times> real list)"
  splev_at :: "'tck \<Rightarrow> nat \<Rightarrow> real \<Rightarrow> real \<times> real"
  splev_raises :: "real list \<Rightarrow> 'tck \<Rightarrow> nat \<Rightarrow> error option"


subsection \<open>The function\<close>



text \<open>
  One entry of \<open>curv\<close>:
  \<open>np.abs(ddx * dy - dx * ddy) / (dx * dx + dy * dy) ** 1.5 + smoother\<close>.
  The division is not guarded; where the divisor is zero numpy yields \<open>nan\<close> (the
  dividend is zero there as well), written \<open>None\<close>.
\<close>

definition curv_at :: "real \<Rightarrow> real \<Rightarrow> real \<Rightarrow> real \<Rightarrow> real \<Rightarrow> real option" where
  "curv_at dx dy ddx ddy smoother =
     (let divisor = (dx * dx + dy * dy) powr (3 / 2) in
      if divisor = 0 then None
      else Some (\<bar>ddx * dy - dx * ddy\<bar> / divisor + smoother))"

definition curv ::
  "real list \<Rightarrow> real list \<Rightarrow> real list \<Rightarrow> real list \<Rightarrow> real \<Rightarrow> real option list"
where
  "curv dx dy ddx ddy smoother =
     map (\<lambda>(a, b, c, d). curv_at a b c d smoother) (zip dx (zip dy (zip ddx ddy)))"

text \<open>Lines 61 to 64: the sample of the cumulative integral and its inversion.\<close>

definition u_new :: "real list \<Rightarrow> real list \<Rightarrow> int \<Rightarrow> error + real list" where
  "u_new curv_int uu npoints =
     (case amax curv_int of
        Inl e \<Rightarrow> Inl e
      | Inr peak \<Rightarrow>
          (case linspace 0 peak npoints of
             Inl e \<Rightarrow> Inl e
           | Inr curv_int_sample \<Rightarrow> interp1d curv_int uu curv_int_sample))"


subsection \<open>Concrete inputs for the examples\<close>





text \<open>
  A stand-in for FITPACK whose fit of any samples is the parabola \<open>(t, t\<^sup>2)\<close> on
  \<open>[0, 1]\<close>, and one whose fit always fails.
\<close>

definition parabola_lib :: "(unit, unit) fitpack" where
  "parabola_lib =
     \<lparr>splprep = (\<lambda>original k s. Inr ((), [0, 1 / 2, 1])),
      splev_at = (\<lambda>tck der t. if der = 0 then (t, t * t) else if der = 1 then (1, 2 * t) else (0, 2)),
      splev_raises = (\<lambda>x tck der. None)\<rparr>"

definition unfit_lib :: "(unit, unit) fitpack" where
  "unfit_lib = parabola_lib\<lparr>splprep := (\<lambda>original k s. Inl ValueError)\<rparr>"

section \<open>Properties of the numeric routines\<close>

subsection \<open>linspace\<close>

lemma linspace_Inr:
  "0 \<le> num \<Longrightarrow> \<exists>xs. linspace a b num = Inr xs \<and> length xs = nat num"
  by (auto simp: linspace_def Let_def)

lemma linspace_length: "linspace a b num = Inr xs \<Longrightarrow> length xs = nat num"
  by (auto simp: linspace_def Let_def split: if_splits)

lemma linspace_map:
  assumes "2 \<le> n"
  shows "linspace a b (int n) = Inr (map (\<lambda>i. a + real i * ((b - a) / real (n - 1))) [0..<n])"
proof -
  have n: "n = Suc (n - 1)" using assms by simp
  have "map (\<lambda>i. a + real i * ((b - a) / real (n - 1))) [0..<n] =
        map (\<lambda>i. a + real i * ((b - a) / real (n - 1))) [0..<n - 1] @ [a + real (n - 1) * ((b - a) / real (n - 1))]"
    by (subst n, subst upt_Suc_append) simp_all
  moreover have "a + real (n - 1) * ((b - a) / real (n - 1)) = b"
    using assms by simp
  ultimately show ?thesis using assms by (simp add: linspace_def Let_def)
qed

lemma linspace_nth:
  assumes "2 \<le> n" "linspace a b (int n) = Inr xs" "i < n"
  shows "xs ! i = a + real i * ((b - a) / real (n - 1))"
  using assms linspace_map[of n a b] by auto

lemma steps_strict: "0 < (h::real) \<Longrightarrow> sorted_wrt (<) (map (\<lambda>i. a + real i * h) [0..<n])"
  unfolding sorted_wrt_map
  by (rule sorted_wrt_mono_rel[of _ "(<)"]) auto

lemma steps_sorted: "0 \<le> (h::real) \<Longrightarrow> sorted (map (\<lambda>i. a + real i * h) [0..<n])"
  unfolding sorted_wrt_map
  by (rule sorted_wrt_mono_rel[of _ "(<)"]) (auto simp: mult_right_mono)

lemma linspace_strict:
  assumes "a < b" "linspace a b num = Inr xs"
  shows "num \<le> 1 \<or> sorted_wrt (<) xs"
proof (cases "num \<le> 1")
  case True then show ?thesis by simp
next
  case False
  then have n: "2 \<le> nat num" "num = int (nat num)" by simp_all
  have xs: "xs = map (\<lambda>i. a + real i * ((b - a) / real (nat num - 1))) [0..<nat num]"
    using linspace_map[OF n(1), of a b] assms(2) n(2) by simp
  have pos: "0 < (b - a) / real (nat num - 1)" using assms(1) n(1) by simp
  have "sorted_wrt (<) xs"
    unfolding xs using pos by (rule steps_strict)
  then show ?thesis ..
qed

lemma linspace_sorted:
  assumes "a \<le> b" "linspace a b num = Inr xs"
  shows "sorted xs"
proof (cases "num \<le> 1")
  case True
  then have "length xs \<le> 1" using linspace_length[OF assms(2)] by simp
  then show ?thesis by (cases xs) auto
next
  case False
  then have n: "2 \<le> nat num" "num = int (nat num)" by simp_all
  have xs: "xs = map (\<lambda>i. a + real i * ((b - a) / real (nat num - 1))) [0..<nat num]"
    using linspace_map[OF n(1), of a b] assms(2) n(2) by simp
  have pos: "0 \<le> (b - a) / real (nat num - 1)" using assms(1) n(1) by simp
  show "sorted xs"
    unfolding xs using pos by (rule steps_sorted)
qed

lemma linspace_hd:
  assumes "1 \<le> num" "linspace a b num = Inr xs"
  shows "hd xs = a"
proof (cases "num = 1")
  case True then show ?thesis using assms by (auto simp: linspace_def Let_def)
next
  case False
  then have n: "2 \<le> nat num" "num = int (nat num)" using assms by simp_all
  have xs: "xs = map (\<lambda>i. a + real i * ((b - a) / real (nat num - 1))) [0..<nat num]"
    using linspace_map[OF n(1), of a b] assms(2) n(2) by simp
  have "xs \<noteq> []" using n xs by simp
  then have "hd xs = xs ! 0" by (simp add: hd_conv_nth)
  also have "\<dots> = a" using n(1) unfolding xs by (subst nth_map) simp_all
  finally show ?thesis .
qed

lemma linspace_last:
  assumes "2 \<le> num" "linspace a b num = Inr xs"
  shows "last xs = b"
  using assms by (auto simp: linspace_def Let_def split: if_splits)

lemma linspace_bounds:
  assumes "a \<le> b" "linspace a b num = Inr xs" "v \<in> set xs"
  shows "a \<le> v \<and> v \<le> b"
proof (cases "num \<le> 1")
  case True
  then show ?thesis using assms by (auto simp: linspace_def Let_def split: if_splits)
next
  case False
  then have n: "2 \<le> nat num" "num = int (nat num)" by simp_all
  have xs: "xs = map (\<lambda>i. a + real i * ((b - a) / real (nat num - 1))) [0..<nat num]"
    using linspace_map[OF n(1), of a b] assms(2) n(2) by simp
  from assms(3) obtain i where i: "i < nat num" "v = a + real i * ((b - a) / real (nat num - 1))"
    unfolding xs by auto
  have d: "0 < real (nat num - 1)" using n(1) by simp
  have "real i \<le> real (nat num - 1)" using i(1) by simp
  then have "real i * ((b - a) / real (nat num - 1)) \<le> real (nat num - 1) * ((b - a) / real (nat num - 1))"
    using assms(1) d by (intro mult_right_mono) simp_all
  also have "\<dots> = b - a" using d by simp
  finally have "v \<le> b" using i(2) by simp
  moreover have "0 \<le> real i * ((b - a) / real (nat num - 1))" using assms(1) d by simp
  then have "a \<le> v" using i(2) by simp
  ultimately show ?thesis by simp
qed

subsection \<open>cumtrapz\<close>

lemma cumsum_from_length: "length (cumsum_from acc vs) = length vs"
  by (induction vs arbitrary: acc) auto

lemma cumsum_from_strict:
  "\<forall>v \<in> set vs. 0 < v \<Longrightarrow> sorted_wrt (<) (acc # cumsum_from acc vs)"
proof (induction vs arbitrary: acc)
  case Nil
  then show ?case by simp
next
  case (Cons v vs)
  then have s: "sorted_wrt (<) ((acc + v) # cumsum_from (acc + v) vs)" by simp
  have "acc < acc + v" using Cons.prems by simp
  moreover have "\<forall>x \<in> set (cumsum_from (acc + v) vs). acc + v < x" using s by simp
  ultimately show ?case using s by auto
qed

lemma diff_length: "length (diff x) = length x - 1"
  by (simp add: diff_def)

lemma diff_pos:
  assumes "sorted_wrt (<) x" "d \<in> set (diff x)"
  shows "0 < d"
proof -
  from assms(2) obtain a b where ab: "(a, b) \<in> set (zip x (tl x))" "d = b - a"
    by (auto simp: diff_def)
  then obtain i where i: "i < length (tl x)" "a = x ! i" "b = tl x ! i"
    by (auto simp: set_zip)
  then have "b = x ! Suc i" by (simp add: nth_tl)
  moreover have "Suc i < length x" using i(1) by simp
  ultimately have "a < b" using assms(1) i(2) by (simp add: sorted_wrt_nth_less)
  then show ?thesis using ab(2) by simp
qed

lemma trapezia_pos:
  assumes "sorted_wrt (<) x" "\<forall>c \<in> set y. 0 < c"
    "t \<in> set (map (\<lambda>(d, y0, y1). d * (y1 + y0) / 2) (zip (diff x) (zip y (tl y))))"
  shows "0 < t"
proof -
  from assms(3) obtain d y0 y1 where t: "t = d * (y1 + y0) / 2"
    and m: "(d, y0, y1) \<in> set (zip (diff x) (zip y (tl y)))"
    by auto
  have "d \<in> set (diff x)" using m by (rule set_zip_leftD)
  then have d: "0 < d" using diff_pos[OF assms(1)] by simp
  have "(y0, y1) \<in> set (zip y (tl y))" using m by (rule set_zip_rightD)
  then have "y0 \<in> set y" "y1 \<in> set (tl y)" by (auto dest: set_zip_leftD set_zip_rightD)
  then have "y0 \<in> set y" "y1 \<in> set y" by (auto dest: list.set_sel(2)[rotated])
  then have "0 < y0" "0 < y1" using assms(2) by auto
  then have "0 < d * (y1 + y0)" using d by simp
  then show ?thesis unfolding t by simp
qed

lemma cumtrapz_strict:
  assumes "sorted_wrt (<) x" "length y = length x" "\<forall>c \<in> set y. 0 < c"
  shows "\<exists>ci. cumtrapz y x = Inr ci \<and> hd ci = 0 \<and> sorted_wrt (<) ci \<and>
           (x \<noteq> [] \<longrightarrow> length ci = length x)"
proof -
  let ?ts = "map (\<lambda>(d, y0, y1). d * (y1 + y0) / 2) (zip (diff x) (zip y (tl y)))"
  have eq: "cumtrapz y x = Inr (0 # cumsum ?ts)" using assms(2) by (simp add: cumtrapz_def)
  have "\<forall>t \<in> set ?ts. 0 < t" using trapezia_pos[OF assms(1,3)] by blast
  then have s: "sorted_wrt (<) (0 # cumsum ?ts)" unfolding cumsum_def by (rule cumsum_from_strict)
  have "length (0 # cumsum ?ts) = length x" if "x \<noteq> []"
    using that assms(2) by (simp add: cumsum_def cumsum_from_length diff_length)
  with eq s show ?thesis by simp
qed


subsection \<open>The curvature array\<close>

lemma velocity_zero: "dx * dx + dy * dy = 0 \<longleftrightarrow> dx = 0 \<and> dy = (0 :: real)"
  using sum_squares_eq_zero_iff[of dx dy] by simp

lemma curv_at_None: "curv_at dx dy ddx ddy smoother = None \<longleftrightarrow> dx = 0 \<and> dy = 0"
  by (simp add: curv_at_def Let_def velocity_zero)

lemma curv_at_Some:
  "dx \<noteq> 0 \<or> dy \<noteq> 0 \<Longrightarrow>
   curv_at dx dy ddx ddy smoother =
     Some (\<bar>ddx * dy - dx * ddy\<bar> / (dx * dx + dy * dy) powr (3 / 2) + smoother)"
  by (simp add: curv_at_def Let_def velocity_zero)

lemma curv_length:
  "length dx = n \<Longrightarrow> length dy = n \<Longrightarrow> length ddx = n \<Longrightarrow> length ddy = n \<Longrightarrow>
   length (curv dx dy ddx ddy smoother) = n"
  by (simp add: curv_def)



subsection \<open>Piecewise-linear interpolation\<close>

lemma chord_bounds:
  fixes x0 x1 y0 y1 v :: real
  assumes "x0 \<le> v" "v < x1" "y0 \<le> y1"
  shows "y0 \<le> (y1 - y0) / (x1 - x0) * (v - x0) + y0"
    and "(y1 - y0) / (x1 - x0) * (v - x0) + y0 \<le> y1"
proof -
  have d: "0 < x1 - x0" using assms by simp
  have "0 \<le> (y1 - y0) / (x1 - x0) * (v - x0)" using assms d by simp
  then show "y0 \<le> (y1 - y0) / (x1 - x0) * (v - x0) + y0" by simp
  have "(y1 - y0) * (v - x0) \<le> (y1 - y0) * (x1 - x0)"
    using assms by (intro mult_left_mono) simp_all
  then have "(y1 - y0) * (v - x0) / (x1 - x0) \<le> y1 - y0"
    using d by (simp add: pos_divide_le_eq)
  then show "(y1 - y0) / (x1 - x0) * (v - x0) + y0 \<le> y1" by simp
qed

lemma chord_mono:
  fixes x0 x1 y0 y1 v v' :: real
  assumes "x0 < x1" "y0 \<le> y1" "v \<le> v'"
  shows "(y1 - y0) / (x1 - x0) * (v - x0) + y0 \<le> (y1 - y0) / (x1 - x0) * (v' - x0) + y0"
proof -
  have "0 \<le> (y1 - y0) / (x1 - x0)" using assms by simp
  then have "(y1 - y0) / (x1 - x0) * (v - x0) \<le> (y1 - y0) / (x1 - x0) * (v' - x0)"
    using assms(3) by (intro mult_left_mono) simp_all
  then show ?thesis by simp
qed

lemma chord_strict:
  fixes x0 x1 y0 y1 v :: real
  assumes "x0 < v" "v < x1" "y0 < y1"
  shows "y0 < (y1 - y0) / (x1 - x0) * (v - x0) + y0"
    and "(y1 - y0) / (x1 - x0) * (v - x0) + y0 < y1"
proof -
  have d: "0 < x1 - x0" using assms by simp
  have "0 < (y1 - y0) / (x1 - x0) * (v - x0)" using assms d by simp
  then show "y0 < (y1 - y0) / (x1 - x0) * (v - x0) + y0" by simp
  have "(y1 - y0) * (v - x0) < (y1 - y0) * (x1 - x0)"
    using assms by (intro mult_strict_left_mono) simp_all
  then have "(y1 - y0) * (v - x0) / (x1 - x0) < y1 - y0"
    using d by (simp add: pos_divide_less_eq)
  then show "(y1 - y0) / (x1 - x0) * (v - x0) + y0 < y1" by simp
qed

lemma chord_inverse:
  fixes x0 x1 y0 y1 v :: real
  assumes "x0 < x1" "y0 < y1"
  shows "(x1 - x0) / (y1 - y0) * ((y1 - y0) / (x1 - x0) * (v - x0) + y0 - y0) + x0 = v"
  using assms by simp

lemma interp_bounds:
  assumes "pts \<noteq> []" "sorted_wrt (<) (map fst pts)" "sorted (map snd pts)" "fst (hd pts) \<le> v"
  shows "snd (hd pts) \<le> interp pts v \<and> interp pts v \<le> snd (last pts)"
  using assms
proof (induction pts v rule: interp.induct)
  case (1 v)
  then show ?case by simp
next
  case (2 x0 y0 v)
  then show ?case by simp
next
  case (3 x0 y0 x1 y1 rest v)
  have le: "y0 \<le> y1" "y1 \<le> snd (last ((x1, y1) # rest))" using "3.prems"(3) by auto
  show ?case
  proof (cases "v < x1")
    case True
    have "x0 \<le> v" using "3.prems"(4) by simp
    from chord_bounds[OF this True le(1)] le True show ?thesis by auto
  next
    case False
    have "snd (hd ((x1, y1) # rest)) \<le> interp ((x1, y1) # rest) v \<and>
          interp ((x1, y1) # rest) v \<le> snd (last ((x1, y1) # rest))"
      using False "3.prems" by (intro "3.IH") auto
    then show ?thesis using False le by auto
  qed
qed

lemma interp_mono:
  assumes "pts \<noteq> []" "sorted_wrt (<) (map fst pts)" "sorted (map snd pts)"
    "fst (hd pts) \<le> v" "v \<le> v'"
  shows "interp pts v \<le> interp pts v'"
  using assms
proof (induction pts v arbitrary: v' rule: interp.induct)
  case (1 v)
  then show ?case by simp
next
  case (2 x0 y0 v)
  then show ?case by simp
next
  case (3 x0 y0 x1 y1 rest v)
  have le: "y0 \<le> y1" and lt: "x0 < x1" using "3.prems"(2,3) by auto
  have x0v: "x0 \<le> v" using "3.prems"(4) by simp
  have tail: "(x1, y1) # rest \<noteq> []" "sorted_wrt (<) (map fst ((x1, y1) # rest))"
    "sorted (map snd ((x1, y1) # rest))"
    using "3.prems"(2,3) by auto
  show ?case
  proof (cases "v < x1")
    case True
    note v = True
    have a: "interp ((x0, y0) # (x1, y1) # rest) v = (y1 - y0) / (x1 - x0) * (v - x0) + y0"
      using True by simp
    show ?thesis
    proof (cases "v' < x1")
      case True
      have "interp ((x0, y0) # (x1, y1) # rest) v' = (y1 - y0) / (x1 - x0) * (v' - x0) + y0"
        using True by simp
      with a chord_mono[OF lt le "3.prems"(5)] show ?thesis by simp
    next
      case False
      have "y1 \<le> interp ((x1, y1) # rest) v'"
        using interp_bounds[OF tail, of v'] False by simp
      moreover have "interp ((x0, y0) # (x1, y1) # rest) v \<le> y1"
        unfolding a using chord_bounds(2)[OF x0v v le] .
      ultimately show ?thesis using False by simp
    qed
  next
    case False
    then have "\<not> v' < x1" using "3.prems"(5) by simp
    moreover have "interp ((x1, y1) # rest) v \<le> interp ((x1, y1) # rest) v'"
      using False "3.prems"(5) tail by (intro "3.IH") auto
    ultimately show ?thesis using False by simp
  qed
qed

lemma interp_first:
  assumes "pts \<noteq> []" "sorted_wrt (<) (map fst pts)"
  shows "interp pts (fst (hd pts)) = snd (hd pts)"
proof (cases pts)
  case Nil
  then show ?thesis using assms by simp
next
  case (Cons p rest)
  show ?thesis
  proof (cases rest)
    case Nil
    then show ?thesis using Cons by (cases p) simp
  next
    case (Cons q rest')
    then show ?thesis using \<open>pts = p # rest\<close> assms(2) by (cases p; cases q) auto
  qed
qed

lemma interp_beyond:
  assumes "pts \<noteq> []" "sorted_wrt (<) (map fst pts)" "fst (last pts) \<le> v"
  shows "interp pts v = snd (last pts)"
  using assms
proof (induction pts v rule: interp.induct)
  case (1 v)
  then show ?case by simp
next
  case (2 x0 y0 v)
  then show ?case by simp
next
  case (3 x0 y0 x1 y1 rest v)
  have "x1 \<le> fst (last ((x1, y1) # rest))"
    using "3.prems"(2) by (cases rest) (auto simp: less_imp_le)
  then have nv: "\<not> v < x1" using "3.prems"(3) by simp
  then have "interp ((x1, y1) # rest) v = snd (last ((x1, y1) # rest))"
    using "3.prems" by (intro "3.IH") auto
  then show ?case using nv by simp
qed

lemma interp_inverse:
  assumes "pts \<noteq> []" "sorted_wrt (<) (map fst pts)" "sorted_wrt (<) (map snd pts)"
    "fst (hd pts) \<le> v" "v \<le> fst (last pts)"
  shows "interp (map prod.swap pts) (interp pts v) = v"
  using assms
proof (induction pts v rule: interp.induct)
  case (1 v)
  then show ?case by simp
next
  case (2 x0 y0 v)
  then show ?case by simp
next
  case (3 x0 y0 x1 y1 rest v)
  have lt: "x0 < x1" "y0 < y1" using "3.prems"(2,3) by auto
  have x0v: "x0 \<le> v" using "3.prems"(4) by simp
  have tail: "(x1, y1) # rest \<noteq> []" "sorted_wrt (<) (map fst ((x1, y1) # rest))"
    "sorted_wrt (<) (map snd ((x1, y1) # rest))"
    using "3.prems"(2,3) by auto
  have tail': "sorted (map snd ((x1, y1) # rest))"
    using tail(3) by (rule sorted_wrt_mono_rel[rotated]) auto
  show ?case
  proof (cases "v < x1")
    case True
    show ?thesis
    proof (cases "v = x0")
      case True
      then show ?thesis using lt by simp
    next
      case False
      then have "x0 < v" using x0v by simp
      note c = chord_strict[OF this True lt(2)]
      let ?u = "(y1 - y0) / (x1 - x0) * (v - x0) + y0"
      have u: "interp ((x0, y0) # (x1, y1) # rest) v = ?u" using True False by simp
      have "interp (map prod.swap ((x0, y0) # (x1, y1) # rest)) ?u =
            (x1 - x0) / (y1 - y0) * (?u - y0) + x0"
        using c by simp
      also have "\<dots> = v" using chord_inverse[OF lt] by simp
      finally show ?thesis unfolding u .
    qed
  next
    case False
    have b: "y1 \<le> interp ((x1, y1) # rest) v"
      using interp_bounds[OF tail(1,2) tail', of v] False by simp
    have "interp (map prod.swap ((x1, y1) # rest)) (interp ((x1, y1) # rest) v) = v"
      using False "3.prems"(5) tail by (intro "3.IH") auto
    then show ?thesis using False b by simp
  qed
qed


lemma sorted_le_last: "sorted xs \<Longrightarrow> x \<in> set xs \<Longrightarrow> (x :: real) \<le> last xs"
  by (induction xs) (auto split: if_splits)

lemma sorted_last_Max_real: "sorted xs \<Longrightarrow> xs \<noteq> [] \<Longrightarrow> Max (set xs) = (last xs :: real)"
  by (intro Max_eqI) (auto simp: sorted_le_last)

lemma hd_zip_fst: "length x = length y \<Longrightarrow> x \<noteq> [] \<Longrightarrow> hd (zip x y) = (hd x, hd y)"
  by (cases x; cases y) auto

lemma last_zip_fst: "length x = length y \<Longrightarrow> x \<noteq> [] \<Longrightarrow> last (zip x y) = (last x, last y)"
  by (rule last_zip) auto

lemma interp1d_sorted:
  assumes "length x = length y" "x \<noteq> []" "sorted x"
  shows "interp1d x y x_new =
           (if \<exists>v \<in> set x_new. v < hd x \<or> last x < v then Inl ValueError
            else Inr (map (interp (zip x y)) x_new))"
proof -
  have "sorted (map fst (zip x y))" using assms by simp
  then have "sort_key fst (zip x y) = zip x y" by (rule sort_key_id_if_sorted)
  then show ?thesis
    using assms by (simp add: interp1d_def Let_def hd_zip_fst last_zip_fst)
qed


lemma cumtrapz_Inr:
  assumes "cumtrapz y x = Inr ci"
  shows "hd ci = 0" "ci \<noteq> []" "0 \<in> set ci"
  using assms by (auto simp: cumtrapz_def split: if_splits)

lemma cumtrapz_length:
  assumes "cumtrapz y x = Inr ci" "x \<noteq> []"
  shows "length ci = length x"
proof -
  have "length x = length y" using assms(1) by (auto simp: cumtrapz_def split: if_splits)
  moreover from this have "y \<noteq> []" using assms(2) by auto
  moreover have "length (tl y) = length y - 1" by simp
  ultimately show ?thesis
    using assms by (auto simp: cumtrapz_def cumsum_def cumsum_from_length diff_length split: if_splits)
qed

lemma u_new_monotone:
  assumes "cumtrapz cv uu = Inr curv_int" "sorted_wrt (<) curv_int" "sorted uu" "uu \<noteq> []"
    "0 \<le> npoints"
  shows "\<exists>sample un. linspace 0 (last curv_int) npoints = Inr sample \<and>
           u_new curv_int uu npoints = Inr un \<and> un = map (interp (zip curv_int uu)) sample \<and>
           length un = nat npoints \<and> sorted un \<and>
           (\<forall>v \<in> set un. hd uu \<le> v \<and> v \<le> last uu) \<and>
           (\<forall>c \<in> set sample. 0 \<le> c \<and> c \<le> last curv_int) \<and>
           (1 \<le> npoints \<longrightarrow> hd un = hd uu) \<and> (2 \<le> npoints \<longrightarrow> last un = last uu)"
proof -
  note ci = cumtrapz_Inr[OF assms(1)]
  have len: "length curv_int = length uu" using cumtrapz_length[OF assms(1,4)] .
  have s: "sorted curv_int" using assms(2) by (rule strict_sorted_imp_sorted)
  have mx: "Max (set curv_int) = last curv_int" using s ci(2) by (rule sorted_last_Max_real)
  have top: "0 \<le> last curv_int" using sorted_le_last[OF s ci(3)] .
  obtain sample where sample: "linspace 0 (last curv_int) npoints = Inr sample"
    "length sample = nat npoints"
    using linspace_Inr[OF assms(5)] by blast
  have sb: "\<forall>c \<in> set sample. 0 \<le> c \<and> c \<le> last curv_int"
    using linspace_bounds[OF top sample(1)] by blast
  have ss: "sorted sample" using linspace_sorted[OF top sample(1)] .
  let ?pts = "zip curv_int uu"
  have pts: "?pts \<noteq> []" "sorted_wrt (<) (map fst ?pts)" "sorted (map snd ?pts)"
    "fst (hd ?pts) = 0" "fst (last ?pts) = last curv_int"
    "snd (hd ?pts) = hd uu" "snd (last ?pts) = last uu"
    using len ci(1,2) assms(2,3,4) by (simp_all add: hd_zip_fst last_zip_fst)
  have i1: "interp1d curv_int uu sample = Inr (map (interp ?pts) sample)"
    using interp1d_sorted[OF len ci(2) s, of sample] sb ci(1) by fastforce
  then have un: "u_new curv_int uu npoints = Inr (map (interp ?pts) sample)"
    using ci(2) mx sample(1) by (simp add: u_new_def amax_def)
  have bounds: "\<forall>v \<in> set (map (interp ?pts) sample). hd uu \<le> v \<and> v \<le> last uu"
  proof
    fix v assume "v \<in> set (map (interp ?pts) sample)"
    then obtain c where c: "c \<in> set sample" "v = interp ?pts c" by auto
    then have "fst (hd ?pts) \<le> c" using sb pts(4) by simp
    from interp_bounds[OF pts(1,2,3) this] c(2) pts(6,7) show "hd uu \<le> v \<and> v \<le> last uu"
      by simp
  qed
  have sorted_un: "sorted (map (interp ?pts) sample)"
    unfolding sorted_wrt_map
  proof (rule sorted_wrt_mono_rel[OF _ ss])
    fix a b assume "a \<in> set sample" "b \<in> set sample" "a \<le> b"
    moreover have "fst (hd ?pts) \<le> a" using sb \<open>a \<in> set sample\<close> pts(4) by simp
    ultimately show "interp ?pts a \<le> interp ?pts b"
      using interp_mono[OF pts(1,2,3)] by blast
  qed
  have first: "hd (map (interp ?pts) sample) = hd uu" if "1 \<le> npoints"
  proof -
    have ne: "sample \<noteq> []" using sample(2) that by auto
    have "hd sample = 0" using linspace_hd[OF that sample(1)] .
    then have "hd (map (interp ?pts) sample) = interp ?pts (fst (hd ?pts))"
      using ne pts(4) by (simp add: hd_map)
    also have "\<dots> = snd (hd ?pts)" using interp_first[OF pts(1,2)] .
    finally show ?thesis using pts(6) by simp
  qed
  have final: "last (map (interp ?pts) sample) = last uu" if "2 \<le> npoints"
  proof -
    have ne: "sample \<noteq> []" using sample(2) that by auto
    have "last sample = last curv_int" using linspace_last[OF that sample(1)] .
    then have "last (map (interp ?pts) sample) = interp ?pts (fst (last ?pts))"
      using ne pts(5) by (simp add: last_map)
    also have "\<dots> = snd (last ?pts)" using interp_beyond[OF pts(1,2)] by simp
    finally show ?thesis using pts(7) by simp
  qed
  show ?thesis
  proof (rule exI[of _ sample], rule exI[of _ "map (interp ?pts) sample"], intro conjI impI)
    show "linspace 0 (last curv_int) npoints = Inr sample" by (rule sample(1))
    show "u_new curv_int uu npoints = Inr (map (interp ?pts) sample)" by (rule un)
    show "map (interp ?pts) sample = map (interp ?pts) sample" ..
    show "length (map (interp ?pts) sample) = nat npoints" using sample(2) by simp
    show "sorted (map (interp ?pts) sample)" by (rule sorted_un)
    show "\<forall>v \<in> set (map (interp ?pts) sample). hd uu \<le> v \<and> v \<le> last uu" by (rule bounds)
    show "\<forall>c \<in> set sample. 0 \<le> c \<and> c \<le> last curv_int" by (rule sb)
    show "hd (map (interp ?pts) sample) = hd uu" if "1 \<le> npoints" using that by (rule first)
    show "last (map (interp ?pts) sample) = last uu" if "2 \<le> npoints" using that by (rule final)
  qed
qed

lemma zip_swap: "zip ys xs = map prod.swap (zip xs ys)"
  by (induction xs arbitrary: ys) (auto simp: zip_Cons1 split: list.splits)


subsection \<open>The whole function\<close>






section \<open>Properties of the export functions and of the batch drivers\<close>

subsection \<open>The guard of the export functions\<close>










subsection \<open>The page of the example\<close>







subsection \<open>The loops of the batch drivers\<close>









section \<open>The claims\<close>

text \<open>
  C3. On the fine discrete space \<open>np.linspace(u_min, u_max, n)\<close> with \<open>u_min < u_max\<close> and
  at least two points, and for a curvature array whose entries are all strictly
  positive, \<open>cumtrapz\<close> returns an array of the same length whose first entry is 0 and
  whose entries strictly increase.
\<close>

theorem cumulative_strictly_increasing:
  assumes "linspace u_min u_max n = Inr uu" "u_min < u_max" "2 \<le> n"
    and "length cv = length uu" "\<forall>c \<in> set cv. 0 < c"
  shows "\<exists>curv_int. cumtrapz cv uu = Inr curv_int \<and> length curv_int = length uu \<and>
           hd curv_int = 0 \<and> sorted_wrt (<) curv_int"
proof -
  have s: "sorted_wrt (<) uu" using linspace_strict[OF assms(2,1)] assms(3) by simp
  have "uu \<noteq> []" using linspace_length[OF assms(1)] assms(3) by auto
  with cumtrapz_strict[OF s assms(4,5)] show ?thesis by auto
qed

theorem cumulative_strictly_increasing_witness:
  "linspace 0 1 2 = Inr [0, 1] \<and> (0 :: real) < 1 \<and> (2 :: int) \<le> 2 \<and>
   length [1, 1 :: real] = length [0, 1 :: real] \<and>
   (\<exists>curv_int. cumtrapz [1, 1] [0, 1] = Inr curv_int \<and> length curv_int = length [0, 1 :: real] \<and>
      hd curv_int = 0 \<and> sorted_wrt (<) curv_int)"
proof -
  have l: "linspace 0 1 2 = Inr [0, 1]" by (simp add: linspace_def Let_def)
  from cumulative_strictly_increasing [OF l, of "[1, 1]"] l show ?thesis by simp
qed





text \<open>
  C7, as stated, fails: started without options, the \<open>uniformize\<close> command asks for 192
  points, not 200, and the script \<open>bin/bspline.py\<close> passes the bias 30, which is neither
  10 nor 50.
\<close>

theorem defaults_counterexample:
  "cfg_npoints (uniformize_partial (opt_num_points uniformize_defaults)
      (opt_degree uniformize_defaults) (opt_unsmoother uniformize_defaults)) \<noteq> 200 \<and>
   cfg_smoother (script_partial script_defaults) \<notin> {10, 50}"
  by (simp add: uniformize_partial_def uniformize_defaults_def script_partial_def script_defaults_def)


text \<open>
  C7, amended. The defaults of \<open>curvature_based_bspline\<close> itself are \<open>npoints = 200\<close>,
  \<open>k = 3\<close>, \<open>s = 1e-6\<close> and \<open>smoother = 10\<close>, and its grid has 1000 points. With no option
  given the \<open>uniformize\<close> command calls it with 192 points, degree 3 and bias 50; the
  script \<open>bin/bspline.py\<close> calls it with 200 points, degree 3 and bias 30. Both leave
  \<open>s\<close> at \<open>1e-6\<close>.
\<close>

theorem defaults_by_entry_point:
  "curvature_based_bspline_defaults =
     \<lparr>cfg_npoints = 200, cfg_k = 3, cfg_s = 1 / 1000000, cfg_smoother = 10\<rparr> \<and>
   grid_size = 1000 \<and>
   uniformize_partial (opt_num_points uniformize_defaults)
      (opt_degree uniformize_defaults) (opt_unsmoother uniformize_defaults) =
     \<lparr>cfg_npoints = 192, cfg_k = 3, cfg_s = 1 / 1000000, cfg_smoother = 50\<rparr> \<and>
   script_partial script_defaults =
     \<lparr>cfg_npoints = 200, cfg_k = 3, cfg_s = 1 / 1000000, cfg_smoother = 30\<rparr>"
  by (simp add: uniformize_partial_def uniformize_defaults_def script_partial_def script_defaults_def
      curvature_based_bspline_defaults_def grid_size_def)

text \<open>
  C8. The entry of \<open>curv\<close> is undefined (\<open>nan\<close>) exactly where both first derivatives
  are zero. Where one of them is not, the divisor \<open>(dx\<^sup>2 + dy\<^sup>2)\<^sup>1\<^sup>.\<^sup>5\<close> is not zero, and
  with a positive \<open>smoother\<close> the entry is a strictly positive number.
\<close>

theorem curvature_defined:
  "(curv_at dx dy ddx ddy smoother = None \<longleftrightarrow> dx = 0 \<and> dy = 0) \<and>
   (dx \<noteq> 0 \<or> dy \<noteq> 0 \<longrightarrow>
      (dx * dx + dy * dy) powr (3 / 2) \<noteq> 0 \<and>
      (0 < smoother \<longrightarrow> (\<exists>c. curv_at dx dy ddx ddy smoother = Some c \<and> 0 < c)))"
proof -
  have b: "(dx * dx + dy * dy) powr (3 / 2) \<noteq> 0" if "dx \<noteq> 0 \<or> dy \<noteq> 0"
    using that by (simp add: velocity_zero)
  have c: "\<exists>c. curv_at dx dy ddx ddy smoother = Some c \<and> 0 < c"
    if "dx \<noteq> 0 \<or> dy \<noteq> 0" "0 < smoother"
  proof -
    have "0 \<le> \<bar>ddx * dy - dx * ddy\<bar> / (dx * dx + dy * dy) powr (3 / 2)"
      by simp
    then have "0 < \<bar>ddx * dy - dx * ddy\<bar> / (dx * dx + dy * dy) powr (3 / 2) + smoother"
      using that(2) by (rule add_nonneg_pos)
    then show ?thesis using curv_at_Some[OF that(1)] by simp
  qed
  show ?thesis
  proof (intro conjI impI)
    show "curv_at dx dy ddx ddy smoother = None \<longleftrightarrow> dx = 0 \<and> dy = 0"
      by (rule curv_at_None)
  next
    assume "dx \<noteq> 0 \<or> dy \<noteq> 0"
    then show "(dx * dx + dy * dy) powr (3 / 2) \<noteq> 0" by (rule b)
  next
    assume "dx \<noteq> 0 \<or> dy \<noteq> 0" "0 < smoother"
    then show "\<exists>c. curv_at dx dy ddx ddy smoother = Some c \<and> 0 < c" by (rule c)
  qed
qed

theorem curvature_defined_witness:
  "curv_at 0 0 2 3 10 = None \<and> (3 :: real) \<noteq> 0 \<and>
   ((3 :: real) * 3 + 4 * 4) powr (3 / 2) \<noteq> 0 \<and> (0 :: real) < 10 \<and>
   (\<exists>c. curv_at 3 4 1 2 10 = Some c \<and> 0 < c)"
  using curvature_defined [of 0 0 2 3 10] curvature_defined [of 3 4 1 2 10]
  by simp

text \<open>
  C4, as stated, fails for one requested point: \<open>np.linspace(0, top, 1)\<close> is the single
  value 0, so the only resampled parameter is \<open>u_min\<close> and the last value is not
  \<open>u_max\<close>.
\<close>

theorem resampled_parameters_counterexample:
  "cumtrapz [1, 1] [0, 1] = Inr [0, 1] \<and> sorted_wrt (<) [0, 1 :: real] \<and>
   u_new [0, 1] [0, 1] 1 = Inr [0] \<and> last [0 :: real] \<noteq> last [0, 1 :: real]"
  by (simp add: cumtrapz_def diff_def cumsum_def u_new_def amax_def linspace_def interp1d_def)


text \<open>
  C4, amended. For a strictly increasing cumulative array computed by \<open>cumtrapz\<close> over a
  non-decreasing grid, and \<open>npoints \<ge> 0\<close>, the resampling returns exactly \<open>npoints\<close>
  parameter values, non-decreasing and each within \<open>[u_min, u_max]\<close> (the first and last
  grid values); the first is \<open>u_min\<close> when \<open>npoints \<ge> 1\<close> and the last is \<open>u_max\<close> when
  \<open>npoints \<ge> 2\<close>.
\<close>

theorem resampled_parameters:
  assumes "cumtrapz cv uu = Inr curv_int" "sorted_wrt (<) curv_int" "sorted uu" "uu \<noteq> []"
    and "0 \<le> npoints"
  shows "\<exists>un. u_new curv_int uu npoints = Inr un \<and> length un = nat npoints \<and> sorted un \<and>
           (\<forall>v \<in> set un. hd uu \<le> v \<and> v \<le> last uu) \<and>
           (1 \<le> npoints \<longrightarrow> hd un = hd uu) \<and> (2 \<le> npoints \<longrightarrow> last un = last uu)"
  using u_new_monotone[OF assms] by blast

theorem resampled_parameters_witness:
  "cumtrapz [1, 1] [0, 1] = Inr [0, 1] \<and> sorted_wrt (<) [0, 1 :: real] \<and>
   sorted [0, 1 :: real] \<and> [0, 1 :: real] \<noteq> [] \<and> (0 :: int) \<le> 3 \<and>
   (\<exists>un. u_new [0, 1] [0, 1] 3 = Inr un \<and> length un = nat 3 \<and> sorted un \<and>
      hd un = hd [0, 1 :: real] \<and> last un = last [0, 1 :: real])"
proof -
  have c: "cumtrapz [1, 1] [0, 1] = Inr [0, 1]"
    by (simp add: cumtrapz_def diff_def cumsum_def)
  have s: "sorted_wrt (<) [0, 1 :: real]" "sorted [0, 1 :: real]" "[0, 1 :: real] \<noteq> []"
    "(0 :: int) \<le> 3"
    by simp_all
  from resampled_parameters [OF c s] c s show ?thesis by auto
qed


text \<open>
  C5. For a strictly increasing cumulative array over a strictly increasing grid, the
  \<open>npoints\<close> evenly spaced targets over \<open>[0, curv_int.last]\<close> are mapped by the inverse
  interpolation (\<open>curv_int\<close> against \<open>uu\<close>) to parameters at which the interpolant of
  \<open>curv_int\<close> over \<open>uu\<close> gives the targets back, exactly.
\<close>

theorem inversion_round_trip:
  assumes "cumtrapz cv uu = Inr curv_int" "sorted_wrt (<) curv_int" "sorted_wrt (<) uu"
    and "uu \<noteq> []" "0 \<le> npoints"
  shows "\<exists>curv_int_sample un. linspace 0 (last curv_int) npoints = Inr curv_int_sample \<and>
           u_new curv_int uu npoints = Inr un \<and>
           interp1d uu curv_int un = Inr curv_int_sample"
proof -
  have su: "sorted uu" using assms(3) by (rule strict_sorted_imp_sorted)
  from u_new_monotone[OF assms(1,2) su assms(4,5)]
  obtain sample un where r: "linspace 0 (last curv_int) npoints = Inr sample"
    "u_new curv_int uu npoints = Inr un" "un = map (interp (zip curv_int uu)) sample"
    "\<forall>v \<in> set un. hd uu \<le> v \<and> v \<le> last uu" "\<forall>c \<in> set sample. 0 \<le> c \<and> c \<le> last curv_int"
    by blast
  note ci = cumtrapz_Inr[OF assms(1)]
  have len: "length curv_int = length uu" using cumtrapz_length[OF assms(1,4)] .
  let ?pts = "zip curv_int uu"
  have pts: "?pts \<noteq> []" "sorted_wrt (<) (map fst ?pts)" "sorted_wrt (<) (map snd ?pts)"
    "fst (hd ?pts) = 0" "fst (last ?pts) = last curv_int"
    using len ci(1,2) assms(2,3,4) by (simp_all add: hd_zip_fst last_zip_fst)
  have "interp1d uu curv_int un = Inr (map (interp (zip uu curv_int)) un)"
    using interp1d_sorted[OF len[symmetric] assms(4) su, of un] r(4) by fastforce
  also have "map (interp (zip uu curv_int)) un = sample"
    unfolding r(3) zip_swap[of uu curv_int] map_map
  proof (rule map_idI)
    fix c assume "c \<in> set sample"
    then have "fst (hd ?pts) \<le> c" "c \<le> fst (last ?pts)" using r(5) pts(4,5) by simp_all
    from interp_inverse[OF pts(1,2,3) this]
    show "(interp (map prod.swap ?pts) \<circ> interp ?pts) c = c" by simp
  qed
  finally show ?thesis using r(1,2) by blast
qed

theorem inversion_round_trip_witness:
  "cumtrapz [1, 3] [0, 1] = Inr [0, 2] \<and> sorted_wrt (<) [0, 2 :: real] \<and>
   sorted_wrt (<) [0, 1 :: real] \<and> [0, 1 :: real] \<noteq> [] \<and> (0 :: int) \<le> 5 \<and>
   (\<exists>curv_int_sample un. linspace 0 (last [0, 2]) 5 = Inr curv_int_sample \<and>
      u_new [0, 2] [0, 1] 5 = Inr un \<and> interp1d [0, 1] [0, 2] un = Inr curv_int_sample)"
proof -
  have c: "cumtrapz [1, 3] [0, 1] = Inr [0, 2]"
    by (simp add: cumtrapz_def diff_def cumsum_def)
  have s: "sorted_wrt (<) [0, 2 :: real]" "sorted_wrt (<) [0, 1 :: real]" "[0, 1 :: real] \<noteq> []"
    "(0 :: int) \<le> 5"
    by simp_all
  from inversion_round_trip [OF c s] c s show ?thesis by simp
qed








end
